theory Spec2Isabelle
  imports Main "HOL-Library.Word" "HOL-Library.Multiset"
begin

unbundle bit_operations_syntax

section \<open>Data model of nicegraf\_wrappers.h\<close>

text \<open>
  Raw pointers to backend objects are object identities; \<open>0\<close> is \<open>nullptr\<close>.
  \<open>uint32_t\<close> is a 32-bit word and \<open>size_t\<close> a 64-bit word (an LP64 or LLP64 target),
  so every sum and product below wraps around exactly as the C++ does.
\<close>

type_synonym ptr = nat
type_synonym uint32 = "32 word"
type_synonym size_t = "64 word"
type_synonym byte = "8 word"

text \<open>
  Modelled from the spec: \<open>ngf_error\<close> is declared in nicegraf.h, which is not among these
  sources. The specification calls it a typed error code returned by creation; the wrappers
  only pass its values on, so one success code and a family of failure codes is all that is
  needed.
\<close>

datatype ngf_error = NGF_ERROR_OK | NGF_ERROR_CODE nat

datatype ngf_buffer_storage_type = NGF_BUFFER_STORAGE_HOST_READABLE_WRITEABLE

datatype ngf_descriptor_type =
    NGF_DESCRIPTOR_TEXTURE
  | NGF_DESCRIPTOR_UNIFORM_BUFFER
  | NGF_DESCRIPTOR_SAMPLER
  | NGF_DESCRIPTOR_TEXTURE_AND_SAMPLER

text \<open>
  The calls a wrapper makes into the backend, in the order it makes them. \<open>'i\<close> is
  \<open>ObjectManagementFuncs::InitType\<close>. \<open>Memcpy\<close> is the copy of the payload's object
  representation into the mapped range.
\<close>

datatype 'i ngf_call =
    Create 'i
  | Destroy ptr
  | CreateUniformBuffer2 size_t ngf_buffer_storage_type
  | MapRange ptr size_t size_t uint32
  | Memcpy ptr "byte list" size_t
  | FlushRange ptr size_t size_t
  | Unmap ptr

section \<open>ngf\_handle: the operations on one handle\<close>

text \<open>
  \<open>destroy_if_necessary\<close>: \<open>if (handle_) { destroy(handle_); handle_ = nullptr; }\<close>.
  Each function takes the value of \<open>handle_\<close> and the calls made so far and returns the
  new value of \<open>handle_\<close> and the extended calls.
\<close>

definition destroy_if_necessary :: "ptr \<Rightarrow> 'i ngf_call list \<Rightarrow> ptr \<times> 'i ngf_call list" where
  "destroy_if_necessary handle w =
     (if handle \<noteq> 0 then (0, w @ [Destroy handle]) else (handle, w))"

text \<open>\<open>reset(new_handle)\<close>: \<open>destroy_if_necessary(); handle_ = new_handle;\<close>\<close>

definition reset :: "ptr \<Rightarrow> ptr \<Rightarrow> 'i ngf_call list \<Rightarrow> ptr \<times> 'i ngf_call list" where
  "reset new_handle handle w =
     (let (h, w') = destroy_if_necessary handle w in (new_handle, w'))"

text \<open>\<open>release()\<close>: returns the old \<open>handle_\<close> first, the new (null) \<open>handle_\<close> second.\<close>

definition release :: "ptr \<Rightarrow> ptr \<times> ptr" where
  "release handle = (let tmp = handle in (tmp, 0))"

text \<open>\<open>get()\<close>\<close>

definition get :: "ptr \<Rightarrow> ptr" where
  "get handle = handle"

text \<open>
  \<open>initialize(info)\<close>: \<open>destroy_if_necessary(); return create(&info, &handle_);\<close>.
  The backend's \<open>create\<close> is given the address of \<open>handle_\<close>: its answer is the error code
  it returns and the value \<open>handle_\<close> has when it returns (\<open>0\<close> if it stored nothing,
  since \<open>handle_\<close> was null when it was called).
\<close>

definition initialize ::
  "'i \<Rightarrow> ngf_error \<times> ptr \<Rightarrow> ptr \<Rightarrow> 'i ngf_call list \<Rightarrow> ngf_error \<times> ptr \<times> 'i ngf_call list" where
  "initialize info answer handle w =
     (let (h, w') = destroy_if_necessary handle w
      in (fst answer, snd answer, w' @ [Create info]))"

section \<open>streamed\_uniform\<close>

record streamed_uniform =
  buf :: ptr
  frame :: uint32
  current_offset :: size_t
  nframes :: uint32
  aligned_size :: size_t

text \<open>
  The members \<open>buf_\<close>, \<open>frame_\<close>, \<open>current_offset_\<close>, \<open>nframes_\<close> and
  \<open>aligned_size_\<close> are the fields above, written without the trailing underscore.
  \<open>slot_size\<close> is the initialiser of \<open>aligned_size_\<close>.

  The constructor. \<open>sizeof_T\<close> is \<open>sizeof(T)\<close>, \<open>nfr\<close> the argument \<open>nframes\<close>; \<open>answer\<close> is what
  \<open>ngf_create_uniform_buffer2(&buffer_info, &buf)\<close> returns and the value the local
  \<open>buf\<close> (initialised to \<open>nullptr\<close>) has afterwards. The returned error code is not
  stored anywhere by the constructor.
\<close>

definition slot_size :: "size_t \<Rightarrow> size_t" where
  "slot_size sizeof_T = sizeof_T + (256 - sizeof_T mod 256)"

definition streamed_uniform_ctor ::
  "size_t \<Rightarrow> uint32 \<Rightarrow> ngf_error \<times> ptr \<Rightarrow> 'i ngf_call list \<Rightarrow> streamed_uniform \<times> 'i ngf_call list" where
  "streamed_uniform_ctor sizeof_T nfr answer w =
     (let asz = slot_size sizeof_T;
          w1 = w @ [CreateUniformBuffer2 (asz * ucast nfr) NGF_BUFFER_STORAGE_HOST_READABLE_WRITEABLE];
          new_buf = snd answer;
          (h, w2) = reset new_buf 0 w1
      in (\<lparr> buf = h, frame = 0, current_offset = 0, nframes = nfr, aligned_size = asz \<rparr>, w2))"

text \<open>
  The outcomes of \<open>write\<close> that are undefined behaviour in C++: \<open>memcpy\<close> into a null
  pointer and \<open>% 0\<close>.
\<close>

datatype ub = NullPointerWrite | DivisionByZero

text \<open>
  Modelled from the spec: the three buffer entry points are declared in nicegraf.h, which is
  not among these sources. The specification gives them as
  \<open>map_buffer_range(buffer, offset, size, flags) -> host pointer\<close>,
  \<open>flush_buffer_range(buffer, offset, size)\<close> and \<open>unmap_buffer(buffer)\<close>: only mapping has
  a result. What the backend answers during one \<open>write\<close> is therefore the pointer returned
  by \<open>ngf_uniform_buffer_map_range\<close>, null when mapping fails.
\<close>

record map_answers =
  mapped_buf :: ptr

text \<open>
  \<open>write(data)\<close> (\<open>write\<close> is a reserved word here). \<open>wbit\<close> and \<open>dbit\<close> are \<open>NGF_BUFFER_MAP_WRITE_BIT\<close> and
  \<open>NGF_BUFFER_MAP_DISCARD_BIT\<close> of nicegraf.h. The result is the allocator after the
  call, or the undefined behaviour reached, together with the backend calls made.
\<close>

definition write_uniform ::
  "uint32 \<Rightarrow> uint32 \<Rightarrow> size_t \<Rightarrow> map_answers \<Rightarrow> byte list \<Rightarrow> streamed_uniform \<Rightarrow> 'i ngf_call list
     \<Rightarrow> (ub + streamed_uniform) \<times> 'i ngf_call list" where
  "write_uniform wbit dbit sizeof_T ans data su w =
     (let off = ucast (frame su) * aligned_size su;
          su1 = su\<lparr> current_offset := off \<rparr>;
          flags = (if off = 0 then wbit OR dbit else wbit);
          w1 = w @ [MapRange (get (buf su1)) off (aligned_size su1) flags]
      in if mapped_buf ans = 0 then (Inl NullPointerWrite, w1)
         else
           let w2 = w1 @ [Memcpy (mapped_buf ans) data sizeof_T,
                          FlushRange (get (buf su1)) off (aligned_size su1),
                          Unmap (get (buf su1))]
           in if nframes su1 = 0 then (Inl DivisionByZero, w2)
              else (Inr (su1\<lparr> frame := (frame su1 + 1) mod nframes su1 \<rparr>), w2))"

text \<open>A run of \<open>write\<close> calls; it stops at the first undefined behaviour.\<close>

fun writes ::
  "uint32 \<Rightarrow> uint32 \<Rightarrow> size_t \<Rightarrow> (map_answers \<times> byte list) list \<Rightarrow> streamed_uniform \<Rightarrow> 'i ngf_call list
     \<Rightarrow> (ub + streamed_uniform) \<times> 'i ngf_call list" where
  "writes wbit dbit sizeof_T [] su w = (Inr su, w)"
| "writes wbit dbit sizeof_T (x # xs) su w =
     (case write_uniform wbit dbit sizeof_T (fst x) (snd x) su w of
        (Inl e, w') \<Rightarrow> (Inl e, w')
      | (Inr su', w') \<Rightarrow> writes wbit dbit sizeof_T xs su' w')"

text \<open>The slot size as the specification words it: \<open>ceil(sizeof(T) / 256) * 256\<close>.\<close>

definition spec_slot_size :: "nat \<Rightarrow> nat" where
  "spec_slot_size s = ((s + 255) div 256) * 256"

text \<open>
  Whether a map or flush call stays inside a buffer of \<open>n\<close> bytes: the byte range
  \<open>[offset, offset + size)\<close> of the call ends at or before \<open>n\<close>.
\<close>

fun range_within :: "nat \<Rightarrow> 'i ngf_call \<Rightarrow> bool" where
  "range_within n (MapRange b off len fl) = (unat off + unat len \<le> n)"
| "range_within n (FlushRange b off len) = (unat off + unat len \<le> n)"
| "range_within n c = True"

section \<open>Bind operations\<close>

text \<open>
  \<open>ngf_resource_bind_op\<close>. Its \<open>info\<close> member is a union: the uniform-buffer arm holds
  the buffer, the offset and the range; the image-sampler arm holds an image and a sampler,
  either of which an encoder may leave unset (\<open>None\<close>).
\<close>

datatype ngf_resource_bind_info =
    Uniform_buffer ptr size_t size_t
  | Image_sampler "ptr option" "ptr option"

record ngf_resource_bind_op =
  op_type :: ngf_descriptor_type
  target_set :: uint32
  target_binding :: uint32
  info :: ngf_resource_bind_info

text \<open>\<open>descriptor_set<S>::binding<B>\<close>: the four encoders.\<close>

definition texture :: "uint32 \<Rightarrow> uint32 \<Rightarrow> ptr \<Rightarrow> ngf_resource_bind_op" where
  "texture S B img =
     \<lparr> op_type = NGF_DESCRIPTOR_TEXTURE, target_set = S, target_binding = B,
       info = Image_sampler (Some img) None \<rparr>"

definition uniform_buffer :: "uint32 \<Rightarrow> uint32 \<Rightarrow> ptr \<Rightarrow> size_t \<Rightarrow> size_t \<Rightarrow> ngf_resource_bind_op" where
  "uniform_buffer S B b offset rng =
     \<lparr> op_type = NGF_DESCRIPTOR_UNIFORM_BUFFER, target_set = S, target_binding = B,
       info = Uniform_buffer b offset rng \<rparr>"

definition sampler :: "uint32 \<Rightarrow> uint32 \<Rightarrow> ptr \<Rightarrow> ngf_resource_bind_op" where
  "sampler S B smp =
     \<lparr> op_type = NGF_DESCRIPTOR_SAMPLER, target_set = S, target_binding = B,
       info = Image_sampler None (Some smp) \<rparr>"

definition texture_and_sampler :: "uint32 \<Rightarrow> uint32 \<Rightarrow> ptr \<Rightarrow> ptr \<Rightarrow> ngf_resource_bind_op" where
  "texture_and_sampler S B img smp =
     \<lparr> op_type = NGF_DESCRIPTOR_TEXTURE_AND_SAMPLER, target_set = S, target_binding = B,
       info = Image_sampler (Some img) (Some smp) \<rparr>"

text \<open>
  \<open>streamed_uniform::bind_op_at_current_offset(set, binding)\<close>. The member function is
  not \<open>const\<close>, so the allocator is returned next to the bind-op.
\<close>

definition bind_op_at_current_offset ::
  "uint32 \<Rightarrow> uint32 \<Rightarrow> streamed_uniform \<Rightarrow> ngf_resource_bind_op \<times> streamed_uniform" where
  "bind_op_at_current_offset set_idx binding su =
     (\<lparr> op_type = NGF_DESCRIPTOR_UNIFORM_BUFFER, target_set = set_idx, target_binding = binding,
        info = Uniform_buffer (get (buf su)) (current_offset su) (aligned_size su) \<rparr>, su)"

section \<open>The command-buffer facade\<close>

text \<open>
  Modelled from the spec: \<open>ngf_cmd_bind_resources\<close>, the backend's entry point, is declared
  in nicegraf.h and implemented by the backends, none of which is part of these sources.
  The specification says that it accepts the encoded sequence of bind-ops and its count, that
  commands are recorded into the command buffer, and that an empty sequence is a no-op. A
  command buffer is therefore the list of bind-ops recorded so far, and the call records the
  first \<open>nops\<close> (the count) elements of \<open>ops\<close>. It returns nothing.
\<close>

type_synonym ngf_cmd_buffer = "ngf_resource_bind_op list"

definition ngf_cmd_bind_resources ::
  "ngf_cmd_buffer \<Rightarrow> ngf_resource_bind_op list \<Rightarrow> nat \<Rightarrow> ngf_cmd_buffer" where
  "ngf_cmd_bind_resources cmd_buf ops nops = cmd_buf @ take nops ops"

text \<open>
  \<open>cmd_bind_resources(buf, args...)\<close>: the arguments initialise the array
  \<open>const ngf_resource_bind_op ops[] = { args... }\<close>, and
  \<open>sizeof(ops)/sizeof(ngf_resource_bind_op)\<close> is their number. With no argument the
  declaration is \<open>ops[] = { }\<close>, an array of length zero, which ISO C++ does not allow: that
  instantiation is ill-formed (a compiler may accept it as an extension). The function is
  \<open>void\<close>; the result is the command buffer afterwards.
\<close>

datatype ill_formed = Zero_length_array

definition cmd_bind_resources ::
  "ngf_cmd_buffer \<Rightarrow> ngf_resource_bind_op list \<Rightarrow> ill_formed + ngf_cmd_buffer" where
  "cmd_bind_resources cmd_buf args =
     (let ops = args
      in if length ops = 0 then Inl Zero_length_array
         else Inr (ngf_cmd_bind_resources cmd_buf ops (length ops)))"

section \<open>Programs over several handles\<close>

text \<open>
  A program owns handle objects in numbered slots. A slot holds \<open>None\<close> while no handle
  object lives there (not yet constructed, or already destructed) and \<open>Some p\<close> while one
  does, \<open>p\<close> being its \<open>handle_\<close>. Two slot numbers may be equal, so a handle that is
  moved into itself is read and written through the same slot, as in C++.
\<close>

record 'i handles_state =
  handles :: "ptr option list"
  calls :: "'i ngf_call list"

datatype 'i handle_op =
    DefaultConstruct nat
  | Construct nat ptr
  | MoveConstruct nat nat
  | MoveAssign nat nat
  | Initialize nat 'i ngf_error ptr
  | Get nat
  | Release nat
  | Reset nat ptr
  | Destruct nat

definition live :: "ptr option list \<Rightarrow> nat \<Rightarrow> bool" where
  "live hs i = (i < length hs \<and> hs ! i \<noteq> None)"

definition vacant :: "ptr option list \<Rightarrow> nat \<Rightarrow> bool" where
  "vacant hs i = (i < length hs \<and> hs ! i = None)"

text \<open>
  \<open>operator=(ngf_handle&& other)\<close> on the slots \<open>this\<close> and \<open>other\<close>:
  \<open>destroy_if_necessary(); handle_ = other.handle_; other.handle_ = nullptr;\<close>
\<close>

definition move_assign :: "nat \<Rightarrow> nat \<Rightarrow> 'i handles_state \<Rightarrow> 'i handles_state" where
  "move_assign this other st =
     (let (h, w) = destroy_if_necessary (the (handles st ! this)) (calls st);
          hs1 = (handles st)[this := Some h];
          hs2 = hs1[this := hs1 ! other];
          hs3 = hs2[other := Some 0]
      in \<lparr> handles = hs3, calls = w \<rparr>)"

text \<open>
  One operation of a program. The result is \<open>None\<close> where the operation is not a C++
  program: a member call on a slot without a live handle, or a constructor on a slot that
  has one. \<open>Initialize i init_info e p\<close> is \<open>initialize(info)\<close> on slot \<open>i\<close> with the backend
  answering error code \<open>e\<close> and leaving \<open>p\<close> in \<open>handle_\<close>. The move constructor sets
  \<open>handle_\<close> to null and then move-assigns; the destructor is \<open>destroy_if_necessary\<close>,
  after which the handle object is gone.
\<close>

fun step :: "'i handle_op \<Rightarrow> 'i handles_state \<Rightarrow> 'i handles_state option" where
  "step (DefaultConstruct i) st =
     (if vacant (handles st) i then Some (st\<lparr> handles := (handles st)[i := Some 0] \<rparr>) else None)"
| "step (Construct i raw) st =
     (if vacant (handles st) i then Some (st\<lparr> handles := (handles st)[i := Some raw] \<rparr>) else None)"
| "step (MoveConstruct i j) st =
     (if vacant (handles st) i \<and> live (handles st) j
      then Some (move_assign i j (st\<lparr> handles := (handles st)[i := Some 0] \<rparr>)) else None)"
| "step (MoveAssign i j) st =
     (if live (handles st) i \<and> live (handles st) j then Some (move_assign i j st) else None)"
| "step (Initialize i init_info e p) st =
     (if live (handles st) i
      then (let (err, h, w) = initialize init_info (e, p) (the (handles st ! i)) (calls st)
            in Some \<lparr> handles = (handles st)[i := Some h], calls = w \<rparr>)
      else None)"
| "step (Get i) st =
     (if live (handles st) i then Some st else None)"
| "step (Release i) st =
     (if live (handles st) i
      then (let (tmp, h) = release (the (handles st ! i))
            in Some (st\<lparr> handles := (handles st)[i := Some h] \<rparr>))
      else None)"
| "step (Reset i new_handle) st =
     (if live (handles st) i
      then (let (h, w) = reset new_handle (the (handles st ! i)) (calls st)
            in Some \<lparr> handles = (handles st)[i := Some h], calls = w \<rparr>)
      else None)"
| "step (Destruct i) st =
     (if live (handles st) i
      then (let (h, w) = destroy_if_necessary (the (handles st ! i)) (calls st)
            in Some \<lparr> handles = (handles st)[i := None], calls = w \<rparr>)
      else None)"

fun run :: "'i handle_op list \<Rightarrow> 'i handles_state \<Rightarrow> 'i handles_state option" where
  "run [] st = Some st"
| "run (x # xs) st = (case step x st of None \<Rightarrow> None | Some st' \<Rightarrow> run xs st')"

text \<open>The program starts with \<open>n\<close> slots, none of them holding a handle, and no call made.\<close>

definition start :: "nat \<Rightarrow> 'i handles_state" where
  "start n = \<lparr> handles = replicate n None, calls = [] \<rparr>"

subsection \<open>What a run owns, destroys, adopts and releases\<close>

text \<open>The objects the live handles own: the non-null \<open>handle_\<close> values, slot by slot.\<close>

fun owned :: "ptr option list \<Rightarrow> ptr list" where
  "owned [] = []"
| "owned (None # hs) = owned hs"
| "owned (Some p # hs) = (if p = 0 then owned hs else p # owned hs)"

text \<open>The arguments of the backend's \<open>destroy\<close>, in call order.\<close>

fun destroyed :: "'i ngf_call list \<Rightarrow> ptr list" where
  "destroyed [] = []"
| "destroyed (Destroy p # cs) = p # destroyed cs"
| "destroyed (c # cs) = destroyed cs"

text \<open>
  The object an operation hands to a handle: the pointer \<open>create\<close> stores, the argument of
  \<open>reset\<close>, the argument of the adopting constructor; none when that pointer is null.
\<close>

fun adopted_by :: "'i handle_op \<Rightarrow> ptr list" where
  "adopted_by (Construct i raw) = (if raw = 0 then [] else [raw])"
| "adopted_by (Initialize i init_info e p) = (if p = 0 then [] else [p])"
| "adopted_by (Reset i new_handle) = (if new_handle = 0 then [] else [new_handle])"
| "adopted_by x = []"

fun adopted :: "'i handle_op list \<Rightarrow> ptr list" where
  "adopted [] = []"
| "adopted (x # xs) = adopted_by x @ adopted xs"

text \<open>The object \<open>release()\<close> hands back to the caller; none when the handle is empty.\<close>

fun released_by :: "'i handle_op \<Rightarrow> 'i handles_state \<Rightarrow> ptr list" where
  "released_by (Release i) st = owned [handles st ! i]"
| "released_by x st = []"

fun released :: "'i handle_op list \<Rightarrow> 'i handles_state \<Rightarrow> ptr list" where
  "released [] st = []"
| "released (x # xs) st =
     (case step x st of None \<Rightarrow> [] | Some st' \<Rightarrow> released_by x st @ released xs st')"

text \<open>
  A run hands over only objects that are free: whenever an operation hands an object to a
  handle, no live handle owns that object and it has not been destroyed.
\<close>

definition hands_over_free :: "'i handle_op \<Rightarrow> 'i handles_state \<Rightarrow> bool" where
  "hands_over_free x st =
     list_all (\<lambda>p. p \<notin> set (owned (handles st)) \<and> p \<notin> set (destroyed (calls st))) (adopted_by x)"

fun run_hands_over_free :: "'i handle_op list \<Rightarrow> 'i handles_state \<Rightarrow> bool" where
  "run_hands_over_free [] st = True"
| "run_hands_over_free (x # xs) st =
     (case step x st of None \<Rightarrow> True
      | Some st' \<Rightarrow> hands_over_free x st \<and> run_hands_over_free xs st')"

text \<open>
  The objects a state accounts for: those owned by live handles and those passed to
  \<open>destroy\<close>, counted with multiplicity.
\<close>

definition accounted :: "'i handles_state \<Rightarrow> ptr multiset" where
  "accounted st = mset (owned (handles st)) + mset (destroyed (calls st))"

section \<open>Slot size\<close>

lemma slot_size_68: "slot_size 68 = 256"
  by (simp add: slot_size_def)

lemma unat_slot_size:
  assumes "unat s + 256 < 2 ^ 64"
  shows "unat (slot_size s) = (unat s div 256 + 1) * 256"
proof -
  let ?r = "s mod 256"
  have r: "unat ?r = unat s mod 256" by (simp add: unat_mod)
  then have rlt: "unat ?r < 256" by simp
  have "?r \<le> 256" using rlt by (simp add: word_le_nat_alt)
  then have pad: "unat (256 - ?r) = 256 - unat ?r"
    by (simp add: unat_sub)
  have "unat s + (256 - unat ?r) < 2 ^ 64" using assms by linarith
  then have "unat (s + (256 - ?r)) = unat s + (256 - unat ?r)"
    using pad by (simp add: unat_word_ariths)
  also have "\<dots> = unat s - unat s mod 256 + 256" using r rlt
    by simp
  also have "unat s - unat s mod 256 = unat s div 256 * 256"
    by (simp add: minus_mod_eq_div_mult)
  finally show ?thesis by (simp add: slot_size_def)
qed

text \<open>
  Below the top of the address range the initialiser yields a multiple of 256 strictly
  above \<open>sizeof(T)\<close>. It is the rounded-up size when \<open>sizeof(T)\<close> is not a multiple
  of 256, and 256 more than that when it is.
\<close>

lemma spec_slot_size_cases:
  "spec_slot_size s = (if s mod 256 = 0 then s else (s div 256 + 1) * 256)"
proof -
  let ?q = "s div 256" and ?r = "s mod 256"
  have "s + 255 = (?r + 255) + ?q * 256" by simp
  then have "(s + 255) div 256 = ?q + (?r + 255) div 256"
    by (metis div_mult_self1 zero_neq_numeral)
  moreover have "(?r + 255) div 256 = (if ?r = 0 then 0 else 1)"
  proof (cases "?r = 0")
    case True
    then show ?thesis by simp
  next
    case False
    have "?r < 256" by simp
    then have "(?r + 255) div 256 = 1"
      using False by (intro div_nat_eqI) simp_all
    then show ?thesis using False by simp
  qed
  moreover have "?r = 0 \<Longrightarrow> ?q * 256 = s"
    by (metis add.right_neutral div_mult_mod_eq)
  ultimately show ?thesis by (simp add: spec_slot_size_def)
qed

lemma slot_size_vs_spec:
  assumes "unat s + 256 < 2 ^ 64"
  shows "unat (slot_size s) = (if unat s mod 256 = 0 then spec_slot_size (unat s) + 256
                               else spec_slot_size (unat s))"
proof (cases "unat s mod 256 = 0")
  case True
  then have "unat s div 256 * 256 = unat s"
    by (metis add.right_neutral div_mult_mod_eq)
  then show ?thesis
    using unat_slot_size [OF assms] True by (simp add: spec_slot_size_cases)
next
  case False
  then show ?thesis
    using unat_slot_size [OF assms] by (simp add: spec_slot_size_cases)
qed

lemma slot_size_aligned:
  assumes "unat s + 256 < 2 ^ 64"
  shows "unat s < unat (slot_size s)" and "unat (slot_size s) mod 256 = 0"
proof -
  have "unat s div 256 * 256 + unat s mod 256 = unat s" by simp
  moreover have "unat s mod 256 < 256" by simp
  ultimately have "unat s < unat s div 256 * 256 + 256" by linarith
  then show "unat s < unat (slot_size s)"
    using unat_slot_size [OF assms] by simp
  show "unat (slot_size s) mod 256 = 0"
    using unat_slot_size [OF assms] by simp
qed

text \<open>
  C3. The claim: for every payload size the slot size is \<open>ceil(sizeof(T)/256) * 256\<close>,
  exact multiples of 256 included. At \<open>sizeof(T) = 256\<close> the initialiser of
  \<open>aligned_size_\<close> yields 512, one whole alignment unit more than the 256 the claim
  demands: the padding \<open>256 - sizeof(T) % 256\<close> is 256, not 0, when the remainder is 0.
\<close>

theorem slot_size_at_exact_multiple:
  "slot_size 256 = 512 \<and> spec_slot_size (unat (256 :: size_t)) = 256
     \<and> unat (slot_size 256) \<noteq> spec_slot_size (unat (256 :: size_t))"
proof -
  have code: "slot_size 256 = 512" by (simp add: slot_size_def)
  have spec: "spec_slot_size (unat (256 :: size_t)) = 256" by (simp add: spec_slot_size_def)
  have "unat (slot_size 256) = 512" by (simp add: code)
  then show ?thesis using code spec by simp
qed

section \<open>The ring of slots\<close>

lemma unat_lt_2p32: "unat (n :: uint32) < 2 ^ 32"
  using unsigned_less [of n] by simp

lemma unat_ucast_frame: "unat (ucast (f :: uint32) :: size_t) = unat f"
proof -
  have "unat f < 2 ^ 64" using unat_lt_2p32 [of f] by simp
  then show ?thesis by (simp add: unsigned_ucast_eq take_bit_nat_eq_self)
qed

lemma ucast_eq_of_nat: "(ucast (f :: uint32) :: size_t) = of_nat (unat f)"
  by simp

lemma frame_step:
  fixes f n :: uint32
  assumes "unat f < unat n"
  shows "unat ((f + 1) mod n) = (unat f + 1) mod unat n"
proof -
  have "unat n < 2 ^ 32" by (rule unat_lt_2p32)
  with assms have "Suc (unat f) < 2 ^ 32" by linarith
  then have "unat (f + 1) = unat f + 1"
    by (simp add: unat_word_ariths)
  then show ?thesis by (simp add: unat_mod)
qed

lemma write_uniform_ok:
  assumes "mapped_buf ans \<noteq> 0" "nframes su \<noteq> 0"
  shows "write_uniform wbit dbit sz ans data su w =
     (Inr (su\<lparr> current_offset := ucast (frame su) * aligned_size su,
               frame := (frame su + 1) mod nframes su \<rparr>),
      w @ [MapRange (buf su) (ucast (frame su) * aligned_size su) (aligned_size su)
             (if ucast (frame su) * aligned_size su = 0 then wbit OR dbit else wbit),
           Memcpy (mapped_buf ans) data sz,
           FlushRange (buf su) (ucast (frame su) * aligned_size su) (aligned_size su),
           Unmap (buf su)])"
  using assms by (simp add: write_uniform_def Let_def get_def)

lemma writes_ring:
  assumes "nframes su \<noteq> 0"
    and "\<forall>x \<in> set xs. mapped_buf (fst x) \<noteq> 0"
    and "unat (frame su) = k mod unat (nframes su)"
  shows "\<exists>su' w'. writes wbit dbit sz xs su w = (Inr su', w')
           \<and> unat (frame su') = (k + length xs) mod unat (nframes su)
           \<and> nframes su' = nframes su \<and> aligned_size su' = aligned_size su \<and> buf su' = buf su
           \<and> (xs \<noteq> [] \<longrightarrow> current_offset su' = of_nat ((k + length xs - 1) mod unat (nframes su)) * aligned_size su)"
  using assms
proof (induction xs arbitrary: su w k)
  case Nil
  then show ?case by simp
next
  case (Cons x xs)
  let ?su1 = "su\<lparr> current_offset := ucast (frame su) * aligned_size su,
               frame := (frame su + 1) mod nframes su \<rparr>"
  have n0: "unat (nframes su) \<noteq> 0" using Cons.prems(1) by (simp add: unat_eq_0)
  have lt: "unat (frame su) < unat (nframes su)"
    using Cons.prems(3) n0 by simp
  have fr: "unat (frame ?su1) = (k + 1) mod unat (nframes ?su1)"
    using frame_step [OF lt] Cons.prems(3) by (simp add: mod_Suc_eq)
  have w1: "write_uniform wbit dbit sz (fst x) (snd x) su w = (Inr ?su1, w @ [MapRange (buf su) (ucast (frame su) * aligned_size su) (aligned_size su)
             (if ucast (frame su) * aligned_size su = 0 then wbit OR dbit else wbit),
           Memcpy (mapped_buf (fst x)) (snd x) sz,
           FlushRange (buf su) (ucast (frame su) * aligned_size su) (aligned_size su),
           Unmap (buf su)])" (is "_ = (_, ?w1)")
    using Cons.prems by (intro write_uniform_ok) auto
  have "\<exists>su' w'. writes wbit dbit sz xs ?su1 ?w1 = (Inr su', w')
           \<and> unat (frame su') = ((k + 1) + length xs) mod unat (nframes ?su1)
           \<and> nframes su' = nframes ?su1 \<and> aligned_size su' = aligned_size ?su1 \<and> buf su' = buf ?su1
           \<and> (xs \<noteq> [] \<longrightarrow> current_offset su' = of_nat (((k + 1) + length xs - 1) mod unat (nframes ?su1)) * aligned_size ?su1)"
    using Cons.prems fr by (intro Cons.IH) auto
  then obtain su' w' where r: "writes wbit dbit sz xs ?su1 ?w1 = (Inr su', w')"
     and f: "unat (frame su') = ((k + 1) + length xs) mod unat (nframes su)"
     and same: "nframes su' = nframes su" "aligned_size su' = aligned_size su" "buf su' = buf su"
     and off: "xs \<noteq> [] \<longrightarrow> current_offset su' = of_nat (((k + 1) + length xs - 1) mod unat (nframes su)) * aligned_size su"
    by auto
  have offnil: "xs = [] \<Longrightarrow> current_offset su' = of_nat (k mod unat (nframes su)) * aligned_size su"
  proof -
    assume "xs = []"
    then have "su' = ?su1" using r by simp
    moreover have "(ucast (frame su) :: size_t) = of_nat (k mod unat (nframes su))"
      using Cons.prems(3) ucast_eq_of_nat [of "frame su"] by simp
    ultimately show ?thesis by simp
  qed
  show ?case
    using w1 r f same off offnil by (cases "xs = []") auto
qed


lemma unat_offset:
  fixes f :: uint32 and a :: size_t
  assumes "unat f < n" "unat a * n < 2 ^ 64"
  shows "unat (ucast f * a) = unat f * unat a"
proof -
  have "unat f * unat a \<le> n * unat a"
    using assms(1) by (intro mult_le_mono1) simp
  also have "\<dots> = unat a * n" by (rule mult.commute)
  finally have "unat f * unat a < 2 ^ 64"
    using assms(2) by linarith
  then show ?thesis
    by (simp add: unat_word_ariths unat_ucast_frame)
qed

lemma slot_within:
  fixes f :: uint32 and a :: size_t
  assumes "unat f < n" "unat a * n < 2 ^ 64"
  shows "unat (ucast f * a) + unat a \<le> unat a * n"
proof -
  have "unat f * unat a + unat a = unat a * Suc (unat f)" by simp
  also have "\<dots> \<le> unat a * n"
    using assms(1) by (intro mult_le_mono2) simp
  finally show ?thesis using unat_offset [OF assms] by simp
qed

lemma writes_within:
  assumes "unat (frame su) < unat (nframes su)"
  shows "\<exists>r new. writes wbit dbit sz xs su w = (r, w @ new)
           \<and> (unat (aligned_size su) * unat (nframes su) < 2 ^ 64 \<longrightarrow>
                list_all (range_within (unat (aligned_size su) * unat (nframes su))) new)
           \<and> (\<forall>su'. r = Inr su' \<longrightarrow> unat (frame su') < unat (nframes su))"
  using assms
proof (induction xs arbitrary: su w)
  case Nil
  then show ?case by simp
next
  case (Cons x xs)
  let ?off = "ucast (frame su) * aligned_size su"
  let ?B = "unat (aligned_size su) * unat (nframes su)"
  have inb: "unat ?off + unat (aligned_size su) \<le> ?B" if "?B < 2 ^ 64"
    using Cons.prems that by (rule slot_within)
  have n0: "nframes su \<noteq> 0" using Cons.prems by auto
  show ?case
  proof (cases "mapped_buf (fst x) = 0")
    case True
    then show ?thesis using inb
      by (simp add: write_uniform_def Let_def get_def)
  next
    case False
    let ?su1 = "su\<lparr> current_offset := ?off, frame := (frame su + 1) mod nframes su \<rparr>"
    let ?new = "[MapRange (buf su) ?off (aligned_size su) (if ?off = 0 then wbit OR dbit else wbit),
           Memcpy (mapped_buf (fst x)) (snd x) sz,
           FlushRange (buf su) ?off (aligned_size su),
           Unmap (buf su)]"
    have w1: "write_uniform wbit dbit sz (fst x) (snd x) su w = (Inr ?su1, w @ ?new)"
      using False n0 by (rule write_uniform_ok)
    have lt: "unat (frame ?su1) < unat (nframes ?su1)"
      using frame_step [OF Cons.prems] Cons.prems by simp
    have "\<exists>r new. writes wbit dbit sz xs ?su1 (w @ ?new) = (r, (w @ ?new) @ new)
           \<and> (unat (aligned_size ?su1) * unat (nframes ?su1) < 2 ^ 64 \<longrightarrow>
                list_all (range_within (unat (aligned_size ?su1) * unat (nframes ?su1))) new)
           \<and> (\<forall>su'. r = Inr su' \<longrightarrow> unat (frame su') < unat (nframes ?su1))"
      using lt by (rule Cons.IH)
    then obtain r new where r: "writes wbit dbit sz xs ?su1 (w @ ?new) = (r, (w @ ?new) @ new)"
      and b: "?B < 2 ^ 64 \<longrightarrow> list_all (range_within ?B) new"
      and f: "\<forall>su'. r = Inr su' \<longrightarrow> unat (frame su') < unat (nframes su)"
      by auto
    have "writes wbit dbit sz (x # xs) su w = (r, w @ (?new @ new))"
      using w1 r by simp
    moreover have "?B < 2 ^ 64 \<longrightarrow> list_all (range_within ?B) (?new @ new)"
      using b inb by simp
    ultimately show ?thesis using f by blast
  qed
qed

lemma ctor_fields:
  "frame (fst (streamed_uniform_ctor sz nfr ans w)) = 0"
  "current_offset (fst (streamed_uniform_ctor sz nfr ans w)) = 0"
  "nframes (fst (streamed_uniform_ctor sz nfr ans w)) = nfr"
  "aligned_size (fst (streamed_uniform_ctor sz nfr ans w)) = slot_size sz"
  "buf (fst (streamed_uniform_ctor sz nfr ans w)) = snd ans"
  "snd (streamed_uniform_ctor sz nfr ans w) =
     w @ [CreateUniformBuffer2 (slot_size sz * ucast nfr) NGF_BUFFER_STORAGE_HOST_READABLE_WRITEABLE]"
  by (simp_all add: streamed_uniform_ctor_def Let_def reset_def destroy_if_necessary_def)

text \<open>
  C1. Every call of \<open>write\<close> first issues one map request, for the offset
  \<open>frame_ * aligned_size_\<close> it has just computed. Provided the discard bit is a bit of
  its own (non-zero and not part of the write bit), the request carries the discard bit
  exactly when that offset is 0, it always carries the write bit, and for a non-zero offset
  its flags are the write bit alone. The flags are a function of the offset only. When the
  call returns, that offset is the stored \<open>current_offset_\<close>.
\<close>

theorem write_discard_iff_offset_zero:
  assumes "dbit \<noteq> 0" and "wbit AND dbit = 0"
  shows "let off = ucast (frame su) * aligned_size su;
             flags = (if off = 0 then wbit OR dbit else wbit)
         in take (Suc (length w)) (snd (write_uniform wbit dbit sz ans data su w))
              = w @ [MapRange (buf su) off (aligned_size su) flags]
          \<and> (flags AND dbit \<noteq> 0 \<longleftrightarrow> off = 0)
          \<and> flags AND wbit = wbit
          \<and> (off \<noteq> 0 \<longrightarrow> flags = wbit)
          \<and> (\<forall>su'. fst (write_uniform wbit dbit sz ans data su w) = Inr su' \<longrightarrow> current_offset su' = off)"
  using assms by (auto simp: write_uniform_def Let_def get_def)

theorem write_discard_iff_offset_zero_witness:
  "(4 :: uint32) \<noteq> 0 \<and> (2 :: uint32) AND 4 = 0 \<and>
   take (Suc 0) (snd (write_uniform 2 4 68
        \<lparr> mapped_buf = 9 \<rparr> []
        \<lparr> buf = 5, frame = 0, current_offset = 512, nframes = 3, aligned_size = 256 \<rparr>
        ([] :: unit ngf_call list)))
     = [MapRange 5 0 256 6] \<and>
   take (Suc 0) (snd (write_uniform 2 4 68
        \<lparr> mapped_buf = 9 \<rparr> []
        \<lparr> buf = 5, frame = 1, current_offset = 0, nframes = 3, aligned_size = 256 \<rparr>
        ([] :: unit ngf_call list)))
     = [MapRange 5 256 256 2]"
proof -
  have h1: "(4 :: uint32) \<noteq> 0" by simp
  have h2: "(2 :: uint32) AND 4 = 0" by simp
  have a: "take (Suc 0) (snd (write_uniform 2 4 68
        \<lparr> mapped_buf = 9 \<rparr> []
        \<lparr> buf = 5, frame = 0, current_offset = 512, nframes = 3, aligned_size = 256 \<rparr>
        ([] :: unit ngf_call list)))
     = [MapRange 5 0 256 6]"
    using write_discard_iff_offset_zero [OF h1 h2, of
        "\<lparr> buf = 5, frame = 0, current_offset = 512, nframes = 3, aligned_size = 256 \<rparr>"
        "[] :: unit ngf_call list" 68
        "\<lparr> mapped_buf = 9 \<rparr>" "[]"]
    by (simp add: Let_def)
  have b: "take (Suc 0) (snd (write_uniform 2 4 68
        \<lparr> mapped_buf = 9 \<rparr> []
        \<lparr> buf = 5, frame = 1, current_offset = 0, nframes = 3, aligned_size = 256 \<rparr>
        ([] :: unit ngf_call list)))
     = [MapRange 5 256 256 2]"
    using write_discard_iff_offset_zero [OF h1 h2, of
        "\<lparr> buf = 5, frame = 1, current_offset = 0, nframes = 3, aligned_size = 256 \<rparr>"
        "[] :: unit ngf_call list" 68
        "\<lparr> mapped_buf = 9 \<rparr>" "[]"]
    by (simp add: Let_def)
  show ?thesis using h1 h2 a b by blast
qed

text \<open>
  C2. Constructed with \<open>nframes \<ge> 1\<close>, after \<open>k \<ge> 1\<close> calls of \<open>write\<close> (each of
  whose map requests returned a non-null pointer) \<open>current_offset_\<close> is
  \<open>((k - 1) mod nframes) * aligned_size_\<close> in \<open>size_t\<close> arithmetic, and as a natural
  number too whenever \<open>aligned_size_ * nframes\<close> does not exceed the range of \<open>size_t\<close>;
  \<open>frame_\<close> is \<open>k mod nframes\<close>, one step further round the ring per call.
\<close>

theorem write_offset_ring:
  assumes "nfr \<noteq> 0" and "xs \<noteq> []" and "\<forall>x \<in> set xs. mapped_buf (fst x) \<noteq> 0"
  shows "\<exists>su w'. writes wbit dbit sz xs (fst (streamed_uniform_ctor sz nfr ans w))
                     (snd (streamed_uniform_ctor sz nfr ans w)) = (Inr su, w')
           \<and> current_offset su = of_nat ((length xs - 1) mod unat nfr) * aligned_size su
           \<and> unat (frame su) = length xs mod unat nfr
           \<and> aligned_size su = slot_size sz
           \<and> (unat (aligned_size su) * unat nfr < 2 ^ 64 \<longrightarrow>
                unat (current_offset su) = ((length xs - 1) mod unat nfr) * unat (aligned_size su))"
proof -
  let ?su0 = "fst (streamed_uniform_ctor sz nfr ans w)"
  let ?w0 = "snd (streamed_uniform_ctor sz nfr ans w)"
  have n0: "unat nfr \<noteq> 0" using assms(1) by (simp add: unat_eq_0)
  have "\<exists>su' w'. writes wbit dbit sz xs ?su0 ?w0 = (Inr su', w')
           \<and> unat (frame su') = (0 + length xs) mod unat (nframes ?su0)
           \<and> nframes su' = nframes ?su0 \<and> aligned_size su' = aligned_size ?su0 \<and> buf su' = buf ?su0
           \<and> (xs \<noteq> [] \<longrightarrow> current_offset su' = of_nat ((0 + length xs - 1) mod unat (nframes ?su0)) * aligned_size ?su0)"
    using assms by (intro writes_ring) (simp_all add: ctor_fields)
  then obtain su w' where r: "writes wbit dbit sz xs ?su0 ?w0 = (Inr su, w')"
    and f: "unat (frame su) = length xs mod unat nfr"
    and a: "aligned_size su = slot_size sz"
    and off: "current_offset su = of_nat ((length xs - 1) mod unat nfr) * aligned_size su"
    using assms(2) by (auto simp: ctor_fields)
  let ?m = "(length xs - 1) mod unat nfr"
  have nat: "unat (current_offset su) = ?m * unat (aligned_size su)"
    if nov: "unat (aligned_size su) * unat nfr < 2 ^ 64"
  proof -
    have m: "?m < unat nfr" using n0 by simp
    have m32: "?m < 2 ^ 32" using m unat_lt_2p32 [of nfr] by linarith
    have um: "unat (of_nat ?m :: uint32) = ?m"
      using m32 by (simp add: unat_of_nat take_bit_nat_eq_self)
    have "(of_nat ?m :: size_t) = ucast (of_nat ?m :: uint32)"
      using um ucast_eq_of_nat [of "of_nat ?m"] by simp
    then have "unat (current_offset su) = unat (ucast (of_nat ?m :: uint32) * aligned_size su)"
      using off by simp
    also have "\<dots> = unat (of_nat ?m :: uint32) * unat (aligned_size su)"
      using m nov um by (intro unat_offset [where n = "unat nfr"]) simp_all
    finally show ?thesis using um by simp
  qed
  show ?thesis using r off f a nat by blast
qed

theorem write_offset_ring_witness:
  "(3 :: uint32) \<noteq> 0 \<and>
   (\<exists>su w'. writes 2 4 68
       [(\<lparr> mapped_buf = 9 \<rparr>, []),
        (\<lparr> mapped_buf = 9 \<rparr>, []),
        (\<lparr> mapped_buf = 9 \<rparr>, []),
        (\<lparr> mapped_buf = 9 \<rparr>, [])]
       (fst (streamed_uniform_ctor 68 3 (NGF_ERROR_OK, 5) ([] :: unit ngf_call list)))
       (snd (streamed_uniform_ctor 68 3 (NGF_ERROR_OK, 5) ([] :: unit ngf_call list))) = (Inr su, w')
     \<and> current_offset su = 0 \<and> unat (frame su) = 1 \<and> aligned_size su = 256
     \<and> unat (current_offset su) = 0)"
  (is "_ \<and> (\<exists>su w'. writes 2 4 68 ?xs ?su0 ?w0 = (Inr su, w') \<and> _)")
proof -
  have h1: "(3 :: uint32) \<noteq> 0" by simp
  have h2: "?xs \<noteq> []" by simp
  have h3: "\<forall>x \<in> set ?xs. mapped_buf (fst x) \<noteq> 0" by simp
  from write_offset_ring [OF h1 h2 h3, of 2 4 68 "(NGF_ERROR_OK, 5)" "[] :: unit ngf_call list"]
  obtain su w' where r: "writes 2 4 68 ?xs ?su0 ?w0 = (Inr su, w')"
    and off: "current_offset su = of_nat ((length ?xs - 1) mod unat (3 :: uint32)) * aligned_size su"
    and fr: "unat (frame su) = length ?xs mod unat (3 :: uint32)"
    and al: "aligned_size su = slot_size 68"
    and nat: "unat (aligned_size su) * unat (3 :: uint32) < 2 ^ 64 \<longrightarrow>
                unat (current_offset su) = ((length ?xs - 1) mod unat (3 :: uint32)) * unat (aligned_size su)"
    by blast
  have "current_offset su = 0" using off by simp
  moreover have "unat (frame su) = 1" using fr by simp
  moreover have a256: "aligned_size su = 256" using al by (simp add: slot_size_def)
  moreover have "unat (current_offset su) = 0" using nat a256 by simp
  ultimately show ?thesis using h1 r by blast
qed

text \<open>
  C10, as claimed: for every allocator constructed with \<open>nframes \<ge> 1\<close> the range that
  \<open>write\<close> maps always lies inside the backing buffer. The constructor computes the buffer
  size \<open>aligned_size_ * nframes\<close> in \<open>size_t\<close>: for a payload of \<open>2^56\<close> bytes and 256
  frames the product wraps round, the constructor requests 65536 bytes, and the first
  \<open>write\<close> maps \<open>2^56 + 256\<close> bytes from offset 0.
\<close>

theorem range_exceeds_buffer_when_size_wraps:
  "snd (streamed_uniform_ctor 72057594037927936 256 (NGF_ERROR_OK, 5) ([] :: unit ngf_call list))
     = [CreateUniformBuffer2 65536 NGF_BUFFER_STORAGE_HOST_READABLE_WRITEABLE]
   \<and> snd (write_uniform 2 4 72057594037927936 \<lparr> mapped_buf = 9 \<rparr> []
          (fst (streamed_uniform_ctor 72057594037927936 256 (NGF_ERROR_OK, 5) ([] :: unit ngf_call list)))
          ([] :: unit ngf_call list))
     = [MapRange 5 0 72057594037928192 6, Memcpy 9 [] 72057594037927936,
        FlushRange 5 0 72057594037928192, Unmap 5]
   \<and> \<not> range_within (unat (65536 :: size_t)) (MapRange 5 0 72057594037928192 6 :: unit ngf_call)"
proof -
  have sl: "slot_size 72057594037927936 = 72057594037928192"
    by (simp add: slot_size_def)
  have c: "streamed_uniform_ctor 72057594037927936 256 (NGF_ERROR_OK, 5) ([] :: unit ngf_call list)
     = (\<lparr> buf = 5, frame = 0, current_offset = 0, nframes = 256, aligned_size = 72057594037928192 \<rparr>,
        [CreateUniformBuffer2 65536 NGF_BUFFER_STORAGE_HOST_READABLE_WRITEABLE])"
    by (simp add: streamed_uniform_ctor_def Let_def reset_def destroy_if_necessary_def sl)
  have w: "snd (write_uniform 2 4 72057594037927936 \<lparr> mapped_buf = 9 \<rparr> []
          \<lparr> buf = 5, frame = 0, current_offset = 0, nframes = 256, aligned_size = 72057594037928192 \<rparr>
          ([] :: unit ngf_call list))
     = [MapRange 5 0 72057594037928192 6, Memcpy 9 [] 72057594037927936,
        FlushRange 5 0 72057594037928192, Unmap 5]"
    by (simp add: write_uniform_def Let_def get_def)
  have r: "\<not> range_within (unat (65536 :: size_t)) (MapRange 5 0 72057594037928192 6 :: unit ngf_call)"
    by simp
  show ?thesis using c w r by simp
qed

text \<open>
  C10, amended. Constructed with \<open>nframes \<ge> 1\<close>, \<open>frame_\<close> stays below \<open>nframes\<close> before and
  after every \<open>write\<close>, whatever the backend answers. The constructor requests one buffer,
  and when \<open>aligned_size_ * nframes\<close> does not wrap round in \<open>size_t\<close> the size it requests
  is that product and every range that \<open>write\<close> maps or flushes ends inside a buffer of the
  requested size. With \<open>nframes = 0\<close> the first \<open>write\<close> that gets as far as advancing
  \<open>frame_\<close> divides by zero.
\<close>

theorem frame_and_range_within_buffer:
  "(nfr \<noteq> 0 \<longrightarrow>
      (\<exists>r new size.
          snd (streamed_uniform_ctor sz nfr ans w)
            = w @ [CreateUniformBuffer2 size NGF_BUFFER_STORAGE_HOST_READABLE_WRITEABLE]
          \<and> writes wbit dbit sz xs (fst (streamed_uniform_ctor sz nfr ans w))
                    (snd (streamed_uniform_ctor sz nfr ans w))
              = (r, snd (streamed_uniform_ctor sz nfr ans w) @ new)
          \<and> (\<forall>su. r = Inr su \<longrightarrow> unat (frame su) < unat nfr)
          \<and> (unat (slot_size sz) * unat nfr < 2 ^ 64 \<longrightarrow>
               unat size = unat (slot_size sz) * unat nfr
               \<and> list_all (range_within (unat size)) new)))
   \<and> (mapped_buf a \<noteq> 0 \<longrightarrow>
        fst (write_uniform wbit dbit sz a d (fst (streamed_uniform_ctor sz 0 ans w)) w') = Inl DivisionByZero)"
proof -
  let ?su0 = "fst (streamed_uniform_ctor sz nfr ans w)"
  let ?w0 = "snd (streamed_uniform_ctor sz nfr ans w)"
  let ?size = "slot_size sz * ucast nfr"
  have first: "\<exists>r new size.
          ?w0 = w @ [CreateUniformBuffer2 size NGF_BUFFER_STORAGE_HOST_READABLE_WRITEABLE]
          \<and> writes wbit dbit sz xs ?su0 ?w0 = (r, ?w0 @ new)
          \<and> (\<forall>su. r = Inr su \<longrightarrow> unat (frame su) < unat nfr)
          \<and> (unat (slot_size sz) * unat nfr < 2 ^ 64 \<longrightarrow>
               unat size = unat (slot_size sz) * unat nfr
               \<and> list_all (range_within (unat size)) new)"
    if n: "nfr \<noteq> 0"
  proof -
    have f0: "unat (frame ?su0) < unat (nframes ?su0)"
      using n by (simp add: ctor_fields unat_gt_0)
    have size: "unat ?size = unat (slot_size sz) * unat nfr"
      if "unat (slot_size sz) * unat nfr < 2 ^ 64"
      using that by (simp add: unat_word_ariths unat_ucast_frame)
    have req: "?w0 = w @ [CreateUniformBuffer2 ?size NGF_BUFFER_STORAGE_HOST_READABLE_WRITEABLE]"
      by (simp add: ctor_fields)
    from writes_within [OF f0, of wbit dbit sz xs ?w0]
    obtain r new where r: "writes wbit dbit sz xs ?su0 ?w0 = (r, ?w0 @ new)"
      and b: "unat (slot_size sz) * unat nfr < 2 ^ 64 \<longrightarrow>
                list_all (range_within (unat (slot_size sz) * unat nfr)) new"
      and f: "\<forall>su'. r = Inr su' \<longrightarrow> unat (frame su') < unat nfr"
      by (auto simp: ctor_fields)
    have "unat (slot_size sz) * unat nfr < 2 ^ 64 \<longrightarrow>
               unat ?size = unat (slot_size sz) * unat nfr
               \<and> list_all (range_within (unat ?size)) new"
      using b size by simp
    then show ?thesis using req r f by blast
  qed
  have second: "fst (write_uniform wbit dbit sz a d (fst (streamed_uniform_ctor sz 0 ans w)) w') = Inl DivisionByZero"
    if "mapped_buf a \<noteq> 0"
    using that by (simp add: write_uniform_def Let_def ctor_fields)
  show ?thesis using first second by blast
qed

theorem frame_and_range_within_buffer_witness:
  "(3 :: uint32) \<noteq> 0 \<and> unat (slot_size 68) * unat (3 :: uint32) < 2 ^ 64
   \<and> (\<exists>r new size.
         snd (streamed_uniform_ctor 68 3 (NGF_ERROR_OK, 5) ([] :: unit ngf_call list))
           = [] @ [CreateUniformBuffer2 size NGF_BUFFER_STORAGE_HOST_READABLE_WRITEABLE]
       \<and> writes 2 4 68 [(\<lparr> mapped_buf = 9 \<rparr>, []), (\<lparr> mapped_buf = 0 \<rparr>, [])]
         (fst (streamed_uniform_ctor 68 3 (NGF_ERROR_OK, 5) ([] :: unit ngf_call list)))
         (snd (streamed_uniform_ctor 68 3 (NGF_ERROR_OK, 5) ([] :: unit ngf_call list)))
       = (r, snd (streamed_uniform_ctor 68 3 (NGF_ERROR_OK, 5) ([] :: unit ngf_call list)) @ new)
       \<and> (\<forall>su. r = Inr su \<longrightarrow> unat (frame su) < unat (3 :: uint32))
       \<and> unat size = unat (slot_size 68) * unat (3 :: uint32)
       \<and> list_all (range_within (unat size)) new)
   \<and> mapped_buf \<lparr> mapped_buf = 9 \<rparr> \<noteq> 0
   \<and> fst (write_uniform 2 4 68 \<lparr> mapped_buf = 9 \<rparr> []
         (fst (streamed_uniform_ctor 68 0 (NGF_ERROR_OK, 5) ([] :: unit ngf_call list)))
         ([] :: unit ngf_call list))
       = Inl DivisionByZero"
proof -
  have h1: "(3 :: uint32) \<noteq> 0" by simp
  have h2: "unat (slot_size 68) * unat (3 :: uint32) < 2 ^ 64" by (simp add: slot_size_def)
  have h3: "mapped_buf \<lparr> mapped_buf = 9 \<rparr> \<noteq> 0"
    by simp
  note t = frame_and_range_within_buffer [where sz = 68 and wbit = 2 and dbit = 4
      and ans = "(NGF_ERROR_OK, 5)" and w = "[] :: unit ngf_call list" and d = "[]"
      and w' = "[] :: unit ngf_call list"
      and a = "\<lparr> mapped_buf = 9 \<rparr>"]
  from t [where nfr = 3] h1 h2 h3 show ?thesis by blast
qed

section \<open>Errors of the backend\<close>

text \<open>
  C4. The claim: a failure of the backend's buffer creation during construction reaches
  the caller, and the allocator is not left looking valid. The constructor calls
  \<open>ngf_create_uniform_buffer2\<close> as a statement: with the backend answering an error and
  storing no buffer, construction ends as it does on success, and the allocator it leaves
  (null buffer, a well-formed frame count and slot size) is the one a succeeding backend
  that stored no buffer would leave. \<open>ngf_handle::initialize\<close>, by contrast, returns the
  code of \<open>create\<close>.
\<close>

theorem ctor_drops_creation_error:
  "streamed_uniform_ctor 68 3 (NGF_ERROR_CODE 1, 0) ([] :: unit ngf_call list) =
     (\<lparr> buf = 0, frame = 0, current_offset = 0, nframes = 3, aligned_size = 256 \<rparr>,
      [CreateUniformBuffer2 768 NGF_BUFFER_STORAGE_HOST_READABLE_WRITEABLE])
   \<and> streamed_uniform_ctor 68 3 (NGF_ERROR_CODE 1, 0) ([] :: unit ngf_call list) =
       streamed_uniform_ctor 68 3 (NGF_ERROR_OK, 0) []"
  by (simp add: streamed_uniform_ctor_def Let_def reset_def destroy_if_necessary_def slot_size_def)

text \<open>
  C5. The claim: a failure that map, flush or unmap reports inside \<open>write\<close> reaches the
  caller of \<open>write\<close>. Mapping reports failure by returning null, and \<open>write\<close> uses the
  pointer unchecked: it has issued the map request and then copies the payload through the
  null pointer. Being \<open>void\<close>, it reports nothing.
\<close>

theorem write_copies_through_null_map:
  "write_uniform 2 4 68 \<lparr> mapped_buf = 0 \<rparr> [1, 2]
        \<lparr> buf = 5, frame = 0, current_offset = 0, nframes = 3, aligned_size = 256 \<rparr>
        ([] :: unit ngf_call list)
     = (Inl NullPointerWrite, [MapRange 5 0 256 6])"
  by (simp add: write_uniform_def Let_def get_def)

section \<open>Bind-op of the current slot\<close>

text \<open>
  C8. \<open>bind_op_at_current_offset(set, binding)\<close> returns a uniform-buffer bind-op for the
  given set and binding whose payload is the allocator's buffer, the stored
  \<open>current_offset_\<close> and \<open>aligned_size_\<close>, and leaves the allocator as it was. On a
  freshly constructed allocator the offset is 0; after a \<open>write\<close> has returned it is the
  offset that \<open>write\<close> mapped.
\<close>

theorem bind_op_at_current_offset_reads_state:
  "bind_op_at_current_offset s b su =
     (\<lparr> op_type = NGF_DESCRIPTOR_UNIFORM_BUFFER, target_set = s, target_binding = b,
        info = Uniform_buffer (buf su) (current_offset su) (aligned_size su) \<rparr>, su)
   \<and> info (fst (bind_op_at_current_offset s b (fst (streamed_uniform_ctor sz nfr ans w))))
       = Uniform_buffer (snd ans) 0 (slot_size sz)
   \<and> (\<forall>su'. fst (write_uniform wbit dbit sz' a d su w') = Inr su' \<longrightarrow>
         info (fst (bind_op_at_current_offset s b su'))
           = Uniform_buffer (buf su) (ucast (frame su) * aligned_size su) (aligned_size su))"
proof -
  have one: "bind_op_at_current_offset s b su =
     (\<lparr> op_type = NGF_DESCRIPTOR_UNIFORM_BUFFER, target_set = s, target_binding = b,
        info = Uniform_buffer (buf su) (current_offset su) (aligned_size su) \<rparr>, su)" for su
    by (simp add: bind_op_at_current_offset_def get_def)
  have two: "info (fst (bind_op_at_current_offset s b (fst (streamed_uniform_ctor sz nfr ans w))))
       = Uniform_buffer (snd ans) 0 (slot_size sz)"
    by (simp add: one ctor_fields)
  have three: "info (fst (bind_op_at_current_offset s b su'))
           = Uniform_buffer (buf su) (ucast (frame su) * aligned_size su) (aligned_size su)"
    if "fst (write_uniform wbit dbit sz' a d su w') = Inr su'" for su'
    using that by (auto simp: one write_uniform_def Let_def split: if_splits)
  show ?thesis using one two three by blast
qed

theorem bind_op_at_current_offset_reads_state_witness:
  "fst (write_uniform 2 4 68
        \<lparr> mapped_buf = 9 \<rparr> []
        \<lparr> buf = 5, frame = 1, current_offset = 0, nframes = 3, aligned_size = 256 \<rparr>
        ([] :: unit ngf_call list))
     = Inr \<lparr> buf = 5, frame = 2, current_offset = 256, nframes = 3, aligned_size = 256 \<rparr>
   \<and> bind_op_at_current_offset 0 1
        \<lparr> buf = 5, frame = 2, current_offset = 256, nframes = 3, aligned_size = 256 \<rparr>
     = (\<lparr> op_type = NGF_DESCRIPTOR_UNIFORM_BUFFER, target_set = 0, target_binding = 1,
          info = Uniform_buffer 5 256 256 \<rparr>,
        \<lparr> buf = 5, frame = 2, current_offset = 256, nframes = 3, aligned_size = 256 \<rparr>)
   \<and> info (fst (bind_op_at_current_offset 0 1
        \<lparr> buf = 5, frame = 2, current_offset = 256, nframes = 3, aligned_size = 256 \<rparr>))
     = Uniform_buffer 5 256 256"
proof -
  have h: "fst (write_uniform 2 4 68
        \<lparr> mapped_buf = 9 \<rparr> []
        \<lparr> buf = 5, frame = 1, current_offset = 0, nframes = 3, aligned_size = 256 \<rparr>
        ([] :: unit ngf_call list))
     = Inr \<lparr> buf = 5, frame = 2, current_offset = 256, nframes = 3, aligned_size = 256 \<rparr>"
    by (simp add: write_uniform_def Let_def get_def)
  note t = bind_op_at_current_offset_reads_state [where s = 0 and b = 1
      and su = "\<lparr> buf = 5, frame = 1, current_offset = 0, nframes = 3, aligned_size = 256 \<rparr>"
      and wbit = 2 and dbit = 4 and sz' = 68 and d = "[]" and w' = "[] :: unit ngf_call list"
      and a = "\<lparr> mapped_buf = 9 \<rparr>"
      and sz = 68 and nfr = 3 and ans = "(NGF_ERROR_OK, 5)" and w = "[] :: unit ngf_call list"]
  from t h have "info (fst (bind_op_at_current_offset 0 1
        \<lparr> buf = 5, frame = 2, current_offset = 256, nframes = 3, aligned_size = 256 \<rparr>))
     = Uniform_buffer 5 256 256"
    by simp
  moreover have "bind_op_at_current_offset 0 1
        \<lparr> buf = 5, frame = 2, current_offset = 256, nframes = 3, aligned_size = 256 \<rparr>
     = (\<lparr> op_type = NGF_DESCRIPTOR_UNIFORM_BUFFER, target_set = 0, target_binding = 1,
          info = Uniform_buffer 5 256 256 \<rparr>,
        \<lparr> buf = 5, frame = 2, current_offset = 256, nframes = 3, aligned_size = 256 \<rparr>)"
    using bind_op_at_current_offset_reads_state [where s = 0 and b = 1
      and su = "\<lparr> buf = 5, frame = 2, current_offset = 256, nframes = 3, aligned_size = 256 \<rparr>"
      and sz = 68 and nfr = 3 and ans = "(NGF_ERROR_OK, 5)" and w = "[] :: unit ngf_call list"
      and wbit = 2 and dbit = 4 and sz' = 68 and d = "[]" and w' = "[] :: unit ngf_call list"
      and a = "\<lparr> mapped_buf = 9 \<rparr>"]
    by simp
  ultimately show ?thesis using h by blast
qed

section \<open>Submitting no bind-ops\<close>

lemma cmd_bind_resources_forwards:
  "args \<noteq> [] \<Longrightarrow>
     cmd_bind_resources cmd_buf args = Inr (ngf_cmd_bind_resources cmd_buf args (length args))"
  by (simp add: cmd_bind_resources_def Let_def)

text \<open>
  C9. The claim: submitting no bind-op through \<open>cmd_bind_resources\<close> is a legal call that
  changes nothing and succeeds. With no argument the wrapper declares the array \<open>ops\<close> with
  length zero, so the call is ill-formed and nothing is submitted; with one bind-op the
  array is well-formed and the bind-op is forwarded with the count 1.
\<close>

theorem cmd_bind_resources_empty_ill_formed:
  "cmd_bind_resources cmd_buf [] = Inl Zero_length_array
   \<and> cmd_bind_resources cmd_buf [uniform_buffer 0 1 5 0 256]
       = Inr (ngf_cmd_bind_resources cmd_buf [uniform_buffer 0 1 5 0 256] 1)"
  by (simp add: cmd_bind_resources_def Let_def)

section \<open>Ownership of handles\<close>

lemma destroyed_append: "destroyed (cs @ ds) = destroyed cs @ destroyed ds"
  by (induction cs rule: destroyed.induct) simp_all

lemma owned_update:
  "i < length hs \<Longrightarrow>
     mset (owned (hs[i := v])) + mset (owned [hs ! i]) = mset (owned hs) + mset (owned [v])"
proof (induction hs arbitrary: i)
  case Nil
  then show ?case by simp
next
  case (Cons h hs)
  show ?case
  proof (cases i)
    case 0
    then show ?thesis by (cases h; cases v) auto
  next
    case (Suc j)
    then have "j < length hs" using Cons.prems by simp
    from Cons.IH [OF this] show ?thesis
      using Suc by (cases h) (auto simp: ac_simps)
  qed
qed

lemma owned_update_null:
  assumes "i < length hs" and "owned [v] = []"
  shows "mset (owned (hs[i := v])) + mset (owned [hs ! i]) = mset (owned hs)"
  using owned_update [OF assms(1), of v] assms(2) by simp

lemma owned_single: "owned [Some p] = (if p = 0 then [] else [p])" "owned [None] = []"
  by simp_all

lemma accounted_destroy_if_necessary:
  assumes "i < length hs" and "hs ! i = Some p"
    and "destroy_if_necessary p w = (h, w')"
  shows "h = 0"
    and "mset (owned (hs[i := v])) + mset (destroyed w')
           = mset (owned hs) + mset (destroyed w) + mset (owned [v])"
proof -
  show "h = 0" using assms(3) by (auto simp: destroy_if_necessary_def split: if_splits)
  have "mset (owned (hs[i := v])) + mset (owned [Some p]) = mset (owned hs) + mset (owned [v])"
    using owned_update [OF assms(1), of v] assms(2) by simp
  moreover have "mset (destroyed w') = mset (destroyed w) + mset (owned [Some p])"
    using assms(3) by (auto simp: destroy_if_necessary_def destroyed_append split: if_splits)
  ultimately show "mset (owned (hs[i := v])) + mset (destroyed w')
           = mset (owned hs) + mset (destroyed w) + mset (owned [v])"
    by (simp add: ac_simps)
qed

lemma accounted_move_assign:
  assumes "live (handles st) i" and "live (handles st) j"
  shows "accounted (move_assign i j st) = accounted st"
proof -
  let ?hs = "handles st"
  from assms obtain p q where i: "i < length ?hs" "?hs ! i = Some p"
    and j: "j < length ?hs" "?hs ! j = Some q"
    by (auto simp: live_def)
  obtain h w where d: "destroy_if_necessary p (calls st) = (h, w)" by (cases "destroy_if_necessary p (calls st)")
  let ?hs1 = "?hs[i := Some h]"
  let ?hs2 = "?hs1[i := ?hs1 ! j]"
  let ?hs3 = "?hs2[j := Some 0]"
  have res: "move_assign i j st = \<lparr> handles = ?hs3, calls = w \<rparr>"
    using i d by (simp add: move_assign_def Let_def)
  have h0: "h = 0" using accounted_destroy_if_necessary(1) [OF i d] .
  have a1: "mset (owned ?hs1) + mset (destroyed w) = mset (owned ?hs) + mset (destroyed (calls st))"
    using accounted_destroy_if_necessary(2) [OF i d, of "Some h"] h0 by simp
  have "mset (owned ?hs2) + mset (owned [?hs1 ! i]) = mset (owned ?hs1) + mset (owned [?hs1 ! j])"
    using owned_update [of i ?hs1 "?hs1 ! j"] i by simp
  then have a2: "mset (owned ?hs2) = mset (owned ?hs1) + mset (owned [?hs1 ! j])"
    using i h0 by simp
  have same: "?hs2 ! j = ?hs1 ! j"
    using i j by (cases "i = j") simp_all
  have "mset (owned ?hs3) + mset (owned [?hs2 ! j]) = mset (owned ?hs2) + mset (owned [Some 0])"
    using owned_update [of j ?hs2 "Some 0"] j by simp
  then have a3: "mset (owned ?hs3) = mset (owned ?hs1)"
    using a2 same by simp
  show ?thesis using res a1 a3 by (simp add: accounted_def)
qed

lemma step_conservation:
  assumes "step x st = Some st'"
  shows "accounted st' + mset (released_by x st) = accounted st + mset (adopted_by x)"
proof (cases x)
  case (DefaultConstruct i)
  then show ?thesis using assms owned_update [of i "handles st" "Some 0"]
    by (auto simp: accounted_def vacant_def split: if_splits)
next
  case (Construct i raw)
  then show ?thesis using assms owned_update [of i "handles st" "Some raw"]
    by (auto simp: accounted_def vacant_def split: if_splits)
next
  case (MoveConstruct i j)
  let ?st1 = "st\<lparr> handles := (handles st)[i := Some 0] \<rparr>"
  from MoveConstruct assms have v: "vacant (handles st) i" and l: "live (handles st) j"
    and r: "st' = move_assign i j ?st1"
    by (auto split: if_splits)
  have ne: "i \<noteq> j" using v l by (auto simp: vacant_def live_def)
  have "live (handles ?st1) i" "live (handles ?st1) j"
    using v l ne by (auto simp: vacant_def live_def)
  then have "accounted st' = accounted ?st1" using r accounted_move_assign by blast
  moreover have "accounted ?st1 = accounted st"
    using v owned_update [of i "handles st" "Some 0"] by (auto simp: accounted_def vacant_def)
  ultimately show ?thesis using MoveConstruct by simp
next
  case (MoveAssign i j)
  then show ?thesis using assms accounted_move_assign [of st i j]
    by (auto split: if_splits)
next
  case (Initialize i init_info e p)
  from Initialize assms obtain q where i: "i < length (handles st)" "handles st ! i = Some q"
    by (auto simp: live_def split: if_splits)
  obtain h w where d: "destroy_if_necessary q (calls st) = (h, w)"
    by (cases "destroy_if_necessary q (calls st)")
  have st': "st' = \<lparr> handles = (handles st)[i := Some p], calls = w @ [Create init_info] \<rparr>"
    using Initialize assms i d by (auto simp: live_def initialize_def Let_def split: if_splits)
  show ?thesis
    using accounted_destroy_if_necessary(2) [OF i d, of "Some p"] st' Initialize
    by (simp add: accounted_def destroyed_append)
next
  case (Get i)
  then show ?thesis using assms by (auto split: if_splits)
next
  case (Release i)
  from Release assms obtain q where i: "i < length (handles st)" "handles st ! i = Some q"
    by (auto simp: live_def split: if_splits)
  have st': "st' = st\<lparr> handles := (handles st)[i := Some 0] \<rparr>"
    using Release assms i by (auto simp: live_def release_def Let_def split: if_splits)
  show ?thesis
    using owned_update [of i "handles st" "Some 0"] i st' Release
    by (simp add: accounted_def ac_simps)
next
  case (Reset i new_handle)
  from Reset assms obtain q where i: "i < length (handles st)" "handles st ! i = Some q"
    by (auto simp: live_def split: if_splits)
  obtain h w where d: "destroy_if_necessary q (calls st) = (h, w)"
    by (cases "destroy_if_necessary q (calls st)")
  have st': "st' = \<lparr> handles = (handles st)[i := Some new_handle], calls = w \<rparr>"
    using Reset assms i d by (auto simp: live_def reset_def Let_def split: if_splits)
  show ?thesis
    using accounted_destroy_if_necessary(2) [OF i d, of "Some new_handle"] st' Reset
    by (simp add: accounted_def)
next
  case (Destruct i)
  from Destruct assms obtain q where i: "i < length (handles st)" "handles st ! i = Some q"
    by (auto simp: live_def split: if_splits)
  obtain h w where d: "destroy_if_necessary q (calls st) = (h, w)"
    by (cases "destroy_if_necessary q (calls st)")
  have st': "st' = \<lparr> handles = (handles st)[i := None], calls = w \<rparr>"
    using Destruct assms i d by (auto simp: live_def split: if_splits)
  show ?thesis
    using accounted_destroy_if_necessary(2) [OF i d, of None] st' Destruct
    by (simp add: accounted_def)
qed


lemma destroy_if_necessary_nonnull:
  assumes "destroy_if_necessary p w = (h, w')" and "0 \<notin> set (destroyed w)"
  shows "0 \<notin> set (destroyed w')"
  using assms by (auto simp: destroy_if_necessary_def destroyed_append split: if_splits)

lemma step_nonnull:
  assumes "step x st = Some st'" and "0 \<notin> set (destroyed (calls st))"
  shows "0 \<notin> set (destroyed (calls st'))"
proof (cases x)
  case (MoveConstruct i j)
  then show ?thesis using assms
    by (auto simp: move_assign_def Let_def destroyed_append
             split: if_splits prod.splits dest: destroy_if_necessary_nonnull)
next
  case (MoveAssign i j)
  then show ?thesis using assms
    by (auto simp: move_assign_def Let_def destroyed_append
             split: if_splits prod.splits dest: destroy_if_necessary_nonnull)
next
  case (Initialize i init_info e p)
  then show ?thesis using assms
    by (auto simp: initialize_def Let_def destroyed_append
             split: if_splits prod.splits dest: destroy_if_necessary_nonnull)
next
  case (Reset i new_handle)
  then show ?thesis using assms
    by (auto simp: reset_def Let_def destroyed_append
             split: if_splits prod.splits dest: destroy_if_necessary_nonnull)
next
  case (Destruct i)
  then show ?thesis using assms
    by (auto simp: Let_def destroyed_append
             split: if_splits prod.splits dest: destroy_if_necessary_nonnull)
qed (use assms in \<open>auto simp: release_def Let_def split: if_splits\<close>)

lemma run_nonnull:
  "run xs st = Some st' \<Longrightarrow> 0 \<notin> set (destroyed (calls st)) \<Longrightarrow> 0 \<notin> set (destroyed (calls st'))"
proof (induction xs arbitrary: st)
  case Nil
  then show ?case by simp
next
  case (Cons x xs)
  then show ?case
    by (auto split: option.splits dest: step_nonnull)
qed

lemma run_conservation:
  "run xs st = Some st' \<Longrightarrow>
     accounted st' + mset (released xs st) = accounted st + mset (adopted xs)"
proof (induction xs arbitrary: st)
  case Nil
  then show ?case by simp
next
  case (Cons x xs)
  then obtain st1 where s: "step x st = Some st1" and r: "run xs st1 = Some st'"
    by (auto split: option.splits)
  have "accounted st' + mset (released xs st1) = accounted st1 + mset (adopted xs)"
    using Cons.IH [OF r] .
  moreover have "accounted st1 + mset (released_by x st) = accounted st + mset (adopted_by x)"
    using step_conservation [OF s] .
  ultimately have "accounted st' + mset (released xs st1) + mset (released_by x st)
      = accounted st + mset (adopted_by x) + mset (adopted xs)"
    by (metis (no_types, lifting) add.assoc add.commute)
  then show ?case using s by (simp add: ac_simps)
qed

lemma step_at_most_once:
  assumes s: "step x st = Some st'" and f: "hands_over_free x st"
    and once: "\<forall>p. count (accounted st) p \<le> 1"
  shows "\<forall>p. count (accounted st') p \<le> 1"
proof
  fix p
  have "count (accounted st') p + count (mset (released_by x st)) p
          = count (accounted st) p + count (mset (adopted_by x)) p"
    using step_conservation [OF s] by (metis count_union)
  then have le: "count (accounted st') p \<le> count (accounted st) p + count (mset (adopted_by x)) p"
    by linarith
  show "count (accounted st') p \<le> 1"
  proof (cases "p \<in> set (adopted_by x)")
    case False
    then have "count (mset (adopted_by x)) p = 0" by (simp add: count_eq_zero_iff)
    then show ?thesis using le once by (metis add.right_neutral le_trans)
  next
    case True
    then have "p \<notin> set (owned (handles st))" "p \<notin> set (destroyed (calls st))"
      using f by (auto simp: hands_over_free_def list_all_iff)
    then have "count (accounted st) p = 0"
      by (simp add: accounted_def count_eq_zero_iff)
    moreover have "count (mset (adopted_by x)) p \<le> 1"
      by (cases x) auto
    ultimately show ?thesis using le by linarith
  qed
qed

lemma run_at_most_once:
  "run xs st = Some st' \<Longrightarrow> run_hands_over_free xs st \<Longrightarrow>
     \<forall>p. count (accounted st) p \<le> 1 \<Longrightarrow> \<forall>p. count (accounted st') p \<le> 1"
proof (induction xs arbitrary: st)
  case Nil
  then show ?case by simp
next
  case (Cons x xs)
  then obtain st1 where s: "step x st = Some st1" and r: "run xs st1 = Some st'"
    by (auto split: option.splits)
  have f: "hands_over_free x st" and fs: "run_hands_over_free xs st1"
    using Cons.prems(2) s by simp_all
  have "\<forall>p. count (accounted st1) p \<le> 1"
    using step_at_most_once [OF s f Cons.prems(3)] .
  then show ?case using Cons.IH [OF r fs] by blast
qed

lemma distinct_iff_at_most_once: "distinct xs \<longleftrightarrow> (\<forall>a. count (mset xs) a \<le> 1)"
proof
  assume "distinct xs"
  then show "\<forall>a. count (mset xs) a \<le> 1"
    by (simp add: distinct_count_atmost_1)
next
  assume a: "\<forall>a. count (mset xs) a \<le> 1"
  show "distinct xs"
    unfolding distinct_count_atmost_1
  proof
    fix b
    have le: "count (mset xs) b \<le> 1" using a by blast
    show "count (mset xs) b = (if b \<in> set xs then 1 else 0)"
    proof (cases "b \<in> set xs")
      case True
      then have "0 < count (mset xs) b" by simp
      with le have "count (mset xs) b = 1" by linarith
      then show ?thesis using True by simp
    next
      case False
      then show ?thesis by (simp add: count_eq_zero_iff)
    qed
  qed
qed

lemma accounted_start: "accounted (start n) = {#}"
proof -
  have "owned (replicate n None) = []" by (induction n) simp_all
  then show ?thesis by (simp add: accounted_def start_def)
qed

lemmas handle_eval = start_def vacant_def live_def move_assign_def initialize_def reset_def
  release_def destroy_if_necessary_def hands_over_free_def Let_def numeral_2_eq_2

text \<open>
  C7. For two distinct live handles A (slot \<open>a\<close>) and B (slot \<open>b\<close>), \<open>B = std::move(A)\<close>
  calls \<open>destroy\<close> on the object B held, if it held one, and on nothing else; afterwards
  B holds what A held and A is null. Destructing A then makes no backend call.
\<close>

theorem move_assign_transfers_ownership:
  assumes "a < length hs" and "b < length hs" and "a \<noteq> b"
    and "hs ! a = Some pa" and "hs ! b = Some pb"
  shows "step (MoveAssign b a) \<lparr> handles = hs, calls = w \<rparr>
           = Some \<lparr> handles = hs[b := Some pa, a := Some 0],
                    calls = w @ (if pb = 0 then [] else [Destroy pb]) \<rparr>
       \<and> step (Destruct a) \<lparr> handles = hs[b := Some pa, a := Some 0], calls = w' \<rparr>
           = Some \<lparr> handles = hs[b := Some pa, a := None], calls = w' \<rparr>"
  using assms by (simp add: live_def move_assign_def destroy_if_necessary_def Let_def)

theorem move_assign_transfers_ownership_witness:
  "(0 :: nat) < length [Some (7 :: nat), Some 8] \<and> (1 :: nat) < length [Some (7 :: nat), Some 8] \<and> (0 :: nat) \<noteq> 1
   \<and> step (MoveAssign 1 0) \<lparr> handles = [Some 7, Some 8], calls = ([] :: unit ngf_call list) \<rparr>
       = Some \<lparr> handles = [Some 0, Some 7], calls = [Destroy 8] \<rparr>
   \<and> step (Destruct 0) \<lparr> handles = [Some 0, Some 7], calls = [Destroy 8 :: unit ngf_call] \<rparr>
       = Some \<lparr> handles = [None, Some 7], calls = [Destroy 8] \<rparr>"
  using move_assign_transfers_ownership [where a = 0 and b = 1 and hs = "[Some 7, Some 8]"
      and pa = 7 and pb = 8 and w = "[] :: unit ngf_call list" and w' = "[Destroy 8 :: unit ngf_call]"]
  by simp

text \<open>
  C6, as claimed: over every sequence of operations on handles, \<open>destroy\<close> is called exactly
  once for each created object that is not released. \<open>reset\<close> takes any raw pointer: handed
  the object that another handle still owns (\<open>b.reset(a.get())\<close>), both handles destroy it,
  and \<open>destroy\<close> is called twice on the one object that was created.
\<close>

theorem reset_to_owned_object_destroys_twice:
  "run [DefaultConstruct 0, DefaultConstruct 1, Initialize 0 () NGF_ERROR_OK 7, Get 0,
        Reset 1 7, Destruct 1, Destruct 0] (start 2)
     = Some \<lparr> handles = [None, None], calls = [Create (), Destroy 7, Destroy 7] \<rparr>
   \<and> count_list (destroyed [Create (), Destroy 7, Destroy (7 :: nat) :: unit ngf_call]) 7 = 2"
  by (simp add: handle_eval)

text \<open>
  C6, amended. Over every sequence of constructor, \<open>initialize\<close>, \<open>get\<close>, \<open>reset\<close>,
  \<open>release\<close>, move and destructor operations, starting with no handle:
  \<^item> \<open>destroy\<close> is never called with a null pointer, that is, never for an empty handle;
  \<^item> the objects handed to handles (stored by \<open>create\<close>, passed to \<open>reset\<close> or to the
    adopting constructor) are, with multiplicity, exactly the objects still owned, those
    destroyed and those released; so once no handle owns anything, the number of
    \<open>destroy\<close> calls on an object is the number of times it was handed to a handle less
    the number of times it was released;
  \<^item> if no operation hands a handle an object that a live handle owns or that has been
    destroyed, no object is destroyed twice, nor destroyed while still owned.
\<close>

theorem destroy_once_per_object:
  assumes "run xs (start n) = Some st"
  shows "0 \<notin> set (destroyed (calls st))
     \<and> mset (owned (handles st)) + mset (destroyed (calls st)) + mset (released xs (start n))
         = mset (adopted xs)
     \<and> (owned (handles st) = [] \<longrightarrow>
          (\<forall>p. count_list (destroyed (calls st)) p
                 = count_list (adopted xs) p - count_list (released xs (start n)) p))
     \<and> (run_hands_over_free xs (start n) \<longrightarrow> distinct (owned (handles st) @ destroyed (calls st)))"
proof -
  have nn: "0 \<notin> set (destroyed (calls st))"
    using run_nonnull [OF assms] by (simp add: start_def)
  have cons: "accounted st + mset (released xs (start n)) = mset (adopted xs)"
    using run_conservation [OF assms] by (simp add: accounted_start)
  have cnt: "count_list (destroyed (calls st)) p
                 = count_list (adopted xs) p - count_list (released xs (start n)) p"
    if "owned (handles st) = []" for p
  proof -
    have "mset (destroyed (calls st)) + mset (released xs (start n)) = mset (adopted xs)"
      using cons that by (simp add: accounted_def)
    then have "count (mset (destroyed (calls st))) p + count (mset (released xs (start n))) p
                 = count (mset (adopted xs)) p"
      by (metis count_union)
    then show ?thesis by (simp add: count_mset)
  qed
  have dist: "distinct (owned (handles st) @ destroyed (calls st))"
    if "run_hands_over_free xs (start n)"
  proof -
    have "\<forall>p. count (accounted st) p \<le> 1"
      using run_at_most_once [OF assms that] by (simp add: accounted_start)
    then show ?thesis
      by (simp add: distinct_iff_at_most_once accounted_def del: distinct_append)
  qed
  show ?thesis using nn cons cnt dist by (simp add: accounted_def)
qed

theorem destroy_once_per_object_witness:
  "run [DefaultConstruct 0, Initialize 0 () NGF_ERROR_OK 7, MoveConstruct 1 0, Reset 0 8,
        Release 0, Destruct 0, Destruct 1] (start 2)
     = Some \<lparr> handles = [None, None], calls = [Create (), Destroy 7] \<rparr>
   \<and> run_hands_over_free [DefaultConstruct 0, Initialize 0 () NGF_ERROR_OK 7, MoveConstruct 1 0,
        Reset 0 8, Release 0, Destruct 0, Destruct 1] (start 2 :: unit handles_state)
   \<and> adopted [DefaultConstruct 0, Initialize 0 () NGF_ERROR_OK 7, MoveConstruct 1 0,
        Reset 0 8, Release 0, Destruct 0, Destruct 1] = [7, 8]
   \<and> released [DefaultConstruct 0, Initialize 0 () NGF_ERROR_OK 7, MoveConstruct 1 0,
        Reset 0 8, Release 0, Destruct 0, Destruct 1] (start 2 :: unit handles_state) = [8]
   \<and> owned [None, None] = []
   \<and> 0 \<notin> set (destroyed [Create (), Destroy 7])
   \<and> distinct (owned [None, None] @ destroyed [Create (), Destroy 7])
   \<and> (\<forall>p. count_list (destroyed [Create (), Destroy 7]) p
         = count_list [7, 8] p - count_list [8] p)"
  (is "run ?xs _ = Some ?st \<and> _")
proof -
  have r: "run ?xs (start 2) = Some ?st"
    by (simp add: handle_eval)
  have f: "run_hands_over_free ?xs (start 2 :: unit handles_state)"
    by (simp add: handle_eval)
  have a: "adopted ?xs = [7, 8]" by simp
  have l: "released ?xs (start 2 :: unit handles_state) = [8]"
    by (simp add: handle_eval)
  have o: "owned (handles ?st) = []" by simp
  from destroy_once_per_object [OF r] f a l o show ?thesis
    using r by simp
qed

end
